theory Spec2Isabelle
  imports Complex_Main "HOL-Library.Multiset" "HOL-Library.Sublist"
begin

section \<open>LinqService: eager query operators over a wrapped array\<close>

text \<open>
  The development follows \<^verbatim>\<open>src/linq/service/linqService.ts\<close>. An array is the list
  of its elements. Equality of elements and of keys is HOL equality, which stands for the
  SameValueZero comparison that the built-in Set and Map use (an object is its reference).
  A number is a binary64 value: every arithmetic operation rounds its exact result to the
  nearest representable value. Where the built-in sort treats \<^verbatim>\<open>undefined\<close> apart, the
  elements are options and \<open>None\<close> is \<^verbatim>\<open>undefined\<close>.
\<close>

subsection \<open>Built-ins of the language\<close>

subsubsection \<open>Numbers\<close>

text \<open>The values of the Number type: the one NaN, the two infinities, the negative zero, and
  the finite values, each given by the real it denotes (\<open>Finite 0\<close> is the positive zero).
  The finite values of binary64 are those that \<open>round64\<close> leaves as they are.\<close>

datatype number = NaN | PosInfinity | NegInfinity | NegZero | Finite real

definition pow2 :: "int \<Rightarrow> real" where
  "pow2 e = (if 0 \<le> e then 2 ^ nat e else 1 / 2 ^ nat (- e))"

fun bit_length :: "nat \<Rightarrow> nat" where
  "bit_length n = (if n = 0 then 0 else Suc (bit_length (n div 2)))"

declare bit_length.simps [simp del]

text \<open>The exponent \<open>e\<close> of a positive real \<open>a\<close>: \<open>2 ^ e \<le> a < 2 ^ (e + 1)\<close>.\<close>

definition floor_log2 :: "real \<Rightarrow> int" where
  "floor_log2 a =
     (if 1 \<le> a then int (bit_length (nat \<lfloor>a\<rfloor>)) - 1
      else - int (bit_length (nat (\<lceil>1 / a\<rceil> - 1))))"

definition round_half_even :: "real \<Rightarrow> int" where
  "round_half_even x =
     (let n = \<lfloor>x\<rfloor>; r = x - of_int n
      in if r < 1 / 2 then n else if 1 / 2 < r then n + 1 else if even n then n else n + 1)"

text \<open>Rounding to nearest, ties to even, with 53 bits of precision, gradual underflow below
  \<open>2 ^ - 1022\<close> and overflow to infinity from \<open>2 ^ 1024\<close>. A non-zero real that rounds to
  zero keeps its sign.\<close>

definition round64 :: "real \<Rightarrow> number" where
  "round64 q =
     (if q = 0 then Finite 0
      else let a = \<bar>q\<bar>;
               e = max (floor_log2 a) (- 1022);
               ulp = pow2 (e - 52);
               r = of_int (round_half_even (a / ulp)) * ulp
           in if pow2 1024 \<le> r then (if q < 0 then NegInfinity else PosInfinity)
              else if r = 0 then (if q < 0 then NegZero else Finite 0)
              else Finite (if q < 0 then - r else r))"

fun value_of :: "number \<Rightarrow> real" where
  "value_of (Finite q) = q"
| "value_of other = 0"

fun negative :: "number \<Rightarrow> bool" where
  "negative NegInfinity = True"
| "negative NegZero = True"
| "negative (Finite q) = (q < 0)"
| "negative other = False"

definition is_infinity :: "number \<Rightarrow> bool" where
  "is_infinity x = (x = PosInfinity \<or> x = NegInfinity)"

definition is_zero :: "number \<Rightarrow> bool" where
  "is_zero x = (x = Finite 0 \<or> x = NegZero)"

definition signed_infinity :: "bool \<Rightarrow> number" where
  "signed_infinity s = (if s then NegInfinity else PosInfinity)"

definition signed_zero :: "bool \<Rightarrow> number" where
  "signed_zero s = (if s then NegZero else Finite 0)"

text \<open>\<^verbatim>\<open>Number::add\<close>, \<^verbatim>\<open>Number::multiply\<close>, \<^verbatim>\<open>Number::divide\<close> and
  \<^verbatim>\<open>Number::lessThan\<close> of the language standard. An exact sum of zero is the positive
  zero unless both summands are the negative zero.\<close>

definition Number_add :: "number \<Rightarrow> number \<Rightarrow> number" where
  "Number_add x y =
     (if x = NaN \<or> y = NaN then NaN
      else if x = PosInfinity \<and> y = NegInfinity then NaN
      else if x = NegInfinity \<and> y = PosInfinity then NaN
      else if is_infinity x then x
      else if is_infinity y then y
      else if x = NegZero \<and> y = NegZero then NegZero
      else round64 (value_of x + value_of y))"

definition Number_multiply :: "number \<Rightarrow> number \<Rightarrow> number" where
  "Number_multiply x y =
     (if x = NaN \<or> y = NaN then NaN
      else let s = (negative x \<noteq> negative y)
           in if is_infinity x \<or> is_infinity y
              then (if is_zero x \<or> is_zero y then NaN else signed_infinity s)
              else if is_zero x \<or> is_zero y then signed_zero s
              else round64 (value_of x * value_of y))"

definition Number_divide :: "number \<Rightarrow> number \<Rightarrow> number" where
  "Number_divide x y =
     (if x = NaN \<or> y = NaN then NaN
      else let s = (negative x \<noteq> negative y)
           in if is_infinity x then (if is_infinity y then NaN else signed_infinity s)
              else if is_infinity y then signed_zero s
              else if is_zero y then (if is_zero x then NaN else signed_infinity s)
              else if is_zero x then signed_zero s
              else round64 (value_of x / value_of y))"

fun rank :: "number \<Rightarrow> int" where
  "rank NegInfinity = - 1"
| "rank PosInfinity = 1"
| "rank other = 0"

definition Number_lessThan :: "number \<Rightarrow> number \<Rightarrow> bool" where
  "Number_lessThan x y =
     (if x = NaN \<or> y = NaN then False
      else rank x < rank y \<or> (rank x = rank y \<and> value_of x < value_of y))"

text \<open>The length of an array as a Number. A length is below \<open>2 ^ 32\<close>, where every integer
  is representable.\<close>

definition Number_of_length :: "nat \<Rightarrow> number" where
  "Number_of_length n = round64 (of_nat n)"

subsubsection \<open>Arrays\<close>

text \<open>\<^verbatim>\<open>Array.prototype.filter\<close>, \<^verbatim>\<open>map\<close>, \<^verbatim>\<open>some\<close>, \<^verbatim>\<open>every\<close> and
  \<^verbatim>\<open>reduce\<close> with an initial value, each walking the array from index 0.\<close>

fun Array_filter :: "('a \<Rightarrow> bool) \<Rightarrow> 'a list \<Rightarrow> 'a list" where
  "Array_filter p [] = []"
| "Array_filter p (x # xs) = (if p x then x # Array_filter p xs else Array_filter p xs)"

fun Array_map :: "('a \<Rightarrow> 'b) \<Rightarrow> 'a list \<Rightarrow> 'b list" where
  "Array_map f [] = []"
| "Array_map f (x # xs) = f x # Array_map f xs"

fun Array_some :: "('a \<Rightarrow> bool) \<Rightarrow> 'a list \<Rightarrow> bool" where
  "Array_some p [] = False"
| "Array_some p (x # xs) = (if p x then True else Array_some p xs)"

fun Array_every :: "('a \<Rightarrow> bool) \<Rightarrow> 'a list \<Rightarrow> bool" where
  "Array_every p [] = True"
| "Array_every p (x # xs) = (if p x then Array_every p xs else False)"

fun Array_reduce :: "('b \<Rightarrow> 'a \<Rightarrow> 'b) \<Rightarrow> 'b \<Rightarrow> 'a list \<Rightarrow> 'b" where
  "Array_reduce g acc [] = acc"
| "Array_reduce g acc (x # xs) = Array_reduce g (g acc x) xs"

text \<open>\<^verbatim>\<open>Array.prototype.sort(comparefn)\<close> is a stable comparison sort by
  \<^verbatim>\<open>SortCompare\<close>, which never hands \<^verbatim>\<open>undefined\<close> to \<open>comparefn\<close>: an undefined
  element comes after every other element. An element goes behind every element that
  \<^verbatim>\<open>SortCompare\<close> does not put after it; insertion sort is the executable model, and a
  positive answer for \<open>a\<close> and \<open>b\<close> means that \<open>a\<close> comes after \<open>b\<close>.\<close>

definition SortCompare :: "('a option \<Rightarrow> 'a option \<Rightarrow> int) \<Rightarrow> 'a option \<Rightarrow> 'a option \<Rightarrow> int" where
  "SortCompare comparefn x y =
     (if x = None \<and> y = None then 0
      else if x = None then 1
      else if y = None then - 1
      else comparefn x y)"

fun sort_insert :: "('a \<Rightarrow> 'a \<Rightarrow> int) \<Rightarrow> 'a \<Rightarrow> 'a list \<Rightarrow> 'a list" where
  "sort_insert compare x [] = [x]"
| "sort_insert compare x (y # ys) =
     (if compare x y > 0 then y # sort_insert compare x ys else x # y # ys)"

fun insertion_sort :: "('a \<Rightarrow> 'a \<Rightarrow> int) \<Rightarrow> 'a list \<Rightarrow> 'a list" where
  "insertion_sort compare [] = []"
| "insertion_sort compare (x # xs) = sort_insert compare x (insertion_sort compare xs)"

definition Array_sort :: "('a option \<Rightarrow> 'a option \<Rightarrow> int) \<Rightarrow> 'a option list \<Rightarrow> 'a option list" where
  "Array_sort comparefn xs = insertion_sort (SortCompare comparefn) xs"

text \<open>\<^verbatim>\<open>Math.max\<close> and \<^verbatim>\<open>Math.min\<close>: NaN if an argument is NaN; otherwise the
  arguments are compared one by one with the highest (lowest) so far, which starts at the
  negative (positive) infinity, and the positive zero counts as higher than the negative.\<close>

definition max_step :: "number \<Rightarrow> number \<Rightarrow> number" where
  "max_step highest v =
     (if v = Finite 0 \<and> highest = NegZero then Finite 0
      else if Number_lessThan highest v then v else highest)"

definition min_step :: "number \<Rightarrow> number \<Rightarrow> number" where
  "min_step lowest v =
     (if v = NegZero \<and> lowest = Finite 0 then NegZero
      else if Number_lessThan v lowest then v else lowest)"

definition Math_max :: "number list \<Rightarrow> number" where
  "Math_max vs = (if NaN \<in> set vs then NaN else Array_reduce max_step NegInfinity vs)"

definition Math_min :: "number list \<Rightarrow> number" where
  "Math_min vs = (if NaN \<in> set vs then NaN else Array_reduce min_step PosInfinity vs)"

text \<open>A \<^verbatim>\<open>Set\<close> is the list of its members in insertion order; \<^verbatim>\<open>new Set(iterable)\<close>
  adds the elements one by one, and spreading the set gives the members back in that order.\<close>

definition Set_has :: "'a list \<Rightarrow> 'a \<Rightarrow> bool" where
  "Set_has s x = (x \<in> set s)"

definition Set_add :: "'a list \<Rightarrow> 'a \<Rightarrow> 'a list" where
  "Set_add s x = (if Set_has s x then s else s @ [x])"

definition new_Set :: "'a list \<Rightarrow> 'a list" where
  "new_Set xs = Array_reduce Set_add [] xs"

text \<open>A \<^verbatim>\<open>Map\<close> is the list of its entries in insertion order of the keys;
  \<^verbatim>\<open>set\<close> on a key that is present replaces the value where the entry stands.\<close>

fun Map_get :: "('k \<times> 'v) list \<Rightarrow> 'k \<Rightarrow> 'v option" where
  "Map_get [] k = None"
| "Map_get ((k', v) # m) k = (if k' = k then Some v else Map_get m k)"

definition Map_has :: "('k \<times> 'v) list \<Rightarrow> 'k \<Rightarrow> bool" where
  "Map_has m k = (Map_get m k \<noteq> None)"

fun Map_set :: "('k \<times> 'v) list \<Rightarrow> 'k \<Rightarrow> 'v \<Rightarrow> ('k \<times> 'v) list" where
  "Map_set [] k v = [(k, v)]"
| "Map_set ((k', v') # m) k v = (if k' = k then (k, v) # m else (k', v') # Map_set m k v)"

subsection \<open>Errors\<close>

text \<open>\<^verbatim>\<open>throw new Error(msg)\<close> is \<open>Inl (Error msg)\<close>. Calling a method on
  \<^verbatim>\<open>undefined\<close> raises a \<^verbatim>\<open>TypeError\<close>, and a call with more arguments than the
  engine accepts raises a \<^verbatim>\<open>RangeError\<close>.\<close>

datatype error = Error string | TypeError | RangeError

definition InvalidOperation :: error where
  "InvalidOperation = Error ''InvalidOperationException''"

subsection \<open>The operators, as functions of the wrapped array\<close>

definition where_op :: "('a \<Rightarrow> bool) \<Rightarrow> 'a list \<Rightarrow> 'a list" where
  "where_op predicate xs = Array_filter predicate xs"

definition select :: "('a \<Rightarrow> 'r) \<Rightarrow> 'a list \<Rightarrow> 'r list" where
  "select selector xs = Array_map selector xs"

text \<open>A call \<^verbatim>\<open>fn(...args)\<close> passes every element of the array as an argument of its
  own. The number of arguments that a call can take is bounded; the bound is the engine's
  and is a parameter here.\<close>

definition spread_call :: "nat \<Rightarrow> ('v list \<Rightarrow> 'w) \<Rightarrow> 'v list \<Rightarrow> error + 'w" where
  "spread_call max_arguments fn args =
     (if max_arguments < length args then Inl RangeError else Inr (fn args))"

definition ascending :: "('a \<Rightarrow> 'k::linorder) \<Rightarrow> 'a \<Rightarrow> 'a \<Rightarrow> int" where
  "ascending keySelector a b =
     (let keyA = keySelector a; keyB = keySelector b
      in if keyA > keyB then 1 else if keyA < keyB then - 1 else 0)"

definition descending :: "('a \<Rightarrow> 'k::linorder) \<Rightarrow> 'a \<Rightarrow> 'a \<Rightarrow> int" where
  "descending keySelector a b =
     (let keyA = keySelector a; keyB = keySelector b
      in if keyA < keyB then 1 else if keyA > keyB then - 1 else 0)"

definition orderBy :: "('a option \<Rightarrow> 'k::linorder) \<Rightarrow> 'a option list \<Rightarrow> 'a option list" where
  "orderBy keySelector xs = Array_sort (ascending keySelector) xs"

definition orderByDescending :: "('a option \<Rightarrow> 'k::linorder) \<Rightarrow> 'a option list \<Rightarrow> 'a option list" where
  "orderByDescending keySelector xs = Array_sort (descending keySelector) xs"

definition first :: "'a list \<Rightarrow> error + 'a" where
  "first xs = (if length xs = 0 then Inl (Error ''InvalidOperationException'') else Inr (xs ! 0))"

definition firstOrDefault :: "'a \<Rightarrow> 'a list \<Rightarrow> 'a" where
  "firstOrDefault defaultValue xs = (if length xs > 0 then xs ! 0 else defaultValue)"

definition count_op :: "'a list \<Rightarrow> nat" where
  "count_op xs = length xs"

definition any :: "('a \<Rightarrow> bool) \<Rightarrow> 'a list \<Rightarrow> bool" where
  "any predicate xs = Array_some predicate xs"

definition all :: "('a \<Rightarrow> bool) \<Rightarrow> 'a list \<Rightarrow> bool" where
  "all predicate xs = Array_every predicate xs"

definition distinct_op :: "'a list \<Rightarrow> 'a list" where
  "distinct_op xs = new_Set xs"

text \<open>The loop of \<^verbatim>\<open>groupBy\<close>. \<^verbatim>\<open>map.get(key)!.push(item)\<close> appends to the array
  that the entry holds; were the entry missing, the call on \<^verbatim>\<open>undefined\<close> would raise.\<close>

fun groupBy_loop :: "('a \<Rightarrow> 'g) \<Rightarrow> ('g \<times> 'a list) list \<Rightarrow> 'a list \<Rightarrow> error + ('g \<times> 'a list) list" where
  "groupBy_loop keySelector m [] = Inr m"
| "groupBy_loop keySelector m (item # rest) =
     (let key = keySelector item;
          m1 = (if \<not> Map_has m key then Map_set m key [] else m)
      in case Map_get m1 key of
           None \<Rightarrow> Inl TypeError
         | Some arr \<Rightarrow> groupBy_loop keySelector (Map_set m1 key (arr @ [item])) rest)"

definition groupBy :: "('a \<Rightarrow> 'g) \<Rightarrow> 'a list \<Rightarrow> error + ('g \<times> 'a list) list" where
  "groupBy keySelector xs = groupBy_loop keySelector [] xs"

definition average :: "('a \<Rightarrow> number) \<Rightarrow> 'a list \<Rightarrow> error + number" where
  "average selector xs =
     (if length xs = 0 then Inl (Error ''InvalidOperationException'')
      else (let values = select selector xs;
                sum = Array_reduce (\<lambda>a b. Number_add a b) (Finite 0) values
            in Inr (Number_divide sum (Number_of_length (length values)))))"

definition max_op :: "nat \<Rightarrow> ('a \<Rightarrow> number) \<Rightarrow> 'a list \<Rightarrow> error + number" where
  "max_op max_arguments selector xs =
     (if length xs = 0 then Inl (Error ''InvalidOperationException'')
      else spread_call max_arguments Math_max (select selector xs))"

definition min_op :: "nat \<Rightarrow> ('a \<Rightarrow> number) \<Rightarrow> 'a list \<Rightarrow> error + number" where
  "min_op max_arguments selector xs =
     (if length xs = 0 then Inl (Error ''InvalidOperationException'')
      else spread_call max_arguments Math_min (select selector xs))"

definition sum_op :: "('a \<Rightarrow> number) \<Rightarrow> 'a list \<Rightarrow> number" where
  "sum_op selector xs =
     (let values = select selector xs
      in if length values = 0 then Finite 0
         else Array_reduce (\<lambda>a b. Number_add a b) (Finite 0) values)"

subsection \<open>Calling an operator\<close>

text \<open>One constructor for each public method with its arguments, and the values that the
  methods return. The elements are options, \<open>None\<close> for \<^verbatim>\<open>undefined\<close>; the first
  argument is the engine's bound on the arguments of a call.\<close>

datatype ('a, 'k, 'g, 'r) operator =
    OpWhere "'a \<Rightarrow> bool"
  | OpSelect "'a \<Rightarrow> 'r"
  | OpOrderBy "'a \<Rightarrow> 'k"
  | OpOrderByDescending "'a \<Rightarrow> 'k"
  | OpFirst
  | OpFirstOrDefault 'a
  | OpCount
  | OpAny "'a \<Rightarrow> bool"
  | OpAll "'a \<Rightarrow> bool"
  | OpDistinct
  | OpGroupBy "'a \<Rightarrow> 'g"
  | OpAverage "'a \<Rightarrow> number"
  | OpMax "'a \<Rightarrow> number"
  | OpMin "'a \<Rightarrow> number"
  | OpSum "'a \<Rightarrow> number"

datatype ('a, 'g, 'r) result =
    Elements "'a list"
  | Projected "'r list"
  | Element 'a
  | Length nat
  | Boolean bool
  | Groups "('g \<times> 'a list) list"
  | Number number

fun invoke ::
  "nat \<Rightarrow> ('a option, 'k::linorder, 'g, 'r) operator \<Rightarrow> 'a option list
     \<Rightarrow> error + ('a option, 'g, 'r) result" where
  "invoke max_arguments (OpWhere predicate) xs = Inr (Elements (where_op predicate xs))"
| "invoke max_arguments (OpSelect selector) xs = Inr (Projected (select selector xs))"
| "invoke max_arguments (OpOrderBy keySelector) xs = Inr (Elements (orderBy keySelector xs))"
| "invoke max_arguments (OpOrderByDescending keySelector) xs = Inr (Elements (orderByDescending keySelector xs))"
| "invoke max_arguments OpFirst xs = map_sum id Element (first xs)"
| "invoke max_arguments (OpFirstOrDefault defaultValue) xs = Inr (Element (firstOrDefault defaultValue xs))"
| "invoke max_arguments OpCount xs = Inr (Length (count_op xs))"
| "invoke max_arguments (OpAny predicate) xs = Inr (Boolean (any predicate xs))"
| "invoke max_arguments (OpAll predicate) xs = Inr (Boolean (all predicate xs))"
| "invoke max_arguments OpDistinct xs = Inr (Elements (distinct_op xs))"
| "invoke max_arguments (OpGroupBy keySelector) xs = map_sum id Groups (groupBy keySelector xs)"
| "invoke max_arguments (OpAverage selector) xs = map_sum id Number (average selector xs)"
| "invoke max_arguments (OpMax selector) xs = map_sum id Number (max_op max_arguments selector xs)"
| "invoke max_arguments (OpMin selector) xs = map_sum id Number (min_op max_arguments selector xs)"
| "invoke max_arguments (OpSum selector) xs = Inr (Number (sum_op selector xs))"

text \<open>The four operators whose body starts with the emptiness check, and the two that spread
  the selected values into the arguments of a call.\<close>

fun spreads_arguments :: "('a, 'k, 'g, 'r) operator \<Rightarrow> bool" where
  "spreads_arguments (OpMax selector) = True"
| "spreads_arguments (OpMin selector) = True"
| "spreads_arguments other = False"


fun checks_empty :: "('a, 'k, 'g, 'r) operator \<Rightarrow> bool" where
  "checks_empty OpFirst = True"
| "checks_empty (OpAverage selector) = True"
| "checks_empty (OpMax selector) = True"
| "checks_empty (OpMin selector) = True"
| "checks_empty other = False"

subsection \<open>The wrapper and the arrays it shares with its caller\<close>

text \<open>Arrays of elements are objects: a store holds their contents, and a reference is an
  index into the store. The wrapper keeps the reference that it was given (the constructor
  does not copy). A method that returns an array of elements allocates it; \<^verbatim>\<open>sort\<close> and
  \<^verbatim>\<open>push\<close> write to the array they are called on.\<close>

type_synonym ref = nat

type_synonym 'a store = "'a list list"

record LinqService =
  data :: ref

definition from_op :: "ref \<Rightarrow> LinqService" where
  "from_op d = \<lparr>data = d\<rparr>"

definition alloc :: "'a store \<Rightarrow> 'a list \<Rightarrow> ref \<times> 'a store" where
  "alloc h xs = (length h, h @ [xs])"

definition sort_in_place ::
  "('a option \<Rightarrow> 'a option \<Rightarrow> int) \<Rightarrow> ref \<Rightarrow> 'a option store \<Rightarrow> 'a option store" where
  "sort_in_place comparefn r h = h[r := Array_sort comparefn (h ! r)]"

definition push :: "ref \<Rightarrow> 'a \<Rightarrow> 'a store \<Rightarrow> 'a store" where
  "push r item h = h[r := h ! r @ [item]]"

datatype ('a, 'g, 'r) returned =
    RefElements ref
  | RefGroups "('g \<times> ref) list"
  | Plain "('a, 'g, 'r) result"

text \<open>The loop of \<^verbatim>\<open>groupBy\<close> on the store: the map holds references to the arrays of
  the groups. The items are those of the wrapped array when the loop starts.\<close>

fun groupBy_refs ::
  "('a \<Rightarrow> 'g) \<Rightarrow> ('g \<times> ref) list \<Rightarrow> 'a list \<Rightarrow> 'a store \<Rightarrow> (error + ('g \<times> ref) list) \<times> 'a store" where
  "groupBy_refs keySelector m [] h = (Inr m, h)"
| "groupBy_refs keySelector m (item # rest) h =
     (let key = keySelector item;
          (m1, h1) = (if \<not> Map_has m key
                      then (let (r, h') = alloc h [] in (Map_set m key r, h'))
                      else (m, h))
      in case Map_get m1 key of
           None \<Rightarrow> (Inl TypeError, h1)
         | Some r \<Rightarrow> groupBy_refs keySelector m1 rest (push r item h1))"

fun call ::
  "nat \<Rightarrow> ('a option, 'k::linorder, 'g, 'r) operator \<Rightarrow> LinqService \<Rightarrow> 'a option store
     \<Rightarrow> (error + ('a option, 'g, 'r) returned) \<times> 'a option store" where
  "call max_arguments (OpWhere predicate) this h =
     (let (r, h') = alloc h (where_op predicate (h ! data this)) in (Inr (RefElements r), h'))"
| "call max_arguments (OpOrderBy keySelector) this h =
     (let (r, h') = alloc h (h ! data this)
      in (Inr (RefElements r), sort_in_place (ascending keySelector) r h'))"
| "call max_arguments (OpOrderByDescending keySelector) this h =
     (let (r, h') = alloc h (h ! data this)
      in (Inr (RefElements r), sort_in_place (descending keySelector) r h'))"
| "call max_arguments OpDistinct this h =
     (let (r, h') = alloc h (distinct_op (h ! data this)) in (Inr (RefElements r), h'))"
| "call max_arguments (OpGroupBy keySelector) this h =
     (let (m, h') = groupBy_refs keySelector [] (h ! data this) h in (map_sum id RefGroups m, h'))"
| "call max_arguments other this h = (map_sum id Plain (invoke max_arguments other (h ! data this)), h)"

text \<open>What the caller sees of a returned value: the contents behind each reference.\<close>

definition view :: "'a store \<Rightarrow> ('g \<times> ref) list \<Rightarrow> ('g \<times> 'a list) list" where
  "view h m = map (\<lambda>(k, r). (k, h ! r)) m"

fun contents :: "'a store \<Rightarrow> ('a, 'g, 'r) returned \<Rightarrow> ('a, 'g, 'r) result" where
  "contents h (RefElements r) = Elements (h ! r)"
| "contents h (RefGroups m) = Groups (view h m)"
| "contents h (Plain v) = v"

text \<open>The invariant of the loop of \<^verbatim>\<open>groupBy\<close> on the store: the arrays of the groups
  are pairwise different objects, all allocated at or after \<open>n\<close>.\<close>

definition fresh_refs :: "nat \<Rightarrow> 'a store \<Rightarrow> ('g \<times> ref) list \<Rightarrow> bool" where
  "fresh_refs n h m = (distinct (map snd m) \<and> (\<forall>r \<in> set (map snd m). n \<le> r \<and> r < length h))"

definition observe :: "(error + ('a, 'g, 'r) returned) \<times> 'a store \<Rightarrow> error + ('a, 'g, 'r) result" where
  "observe out = map_sum id (contents (snd out)) (fst out)"

subsection \<open>Selectors and conditions used in the statements\<close>

text \<open>A key selector on an array of integers and \<^verbatim>\<open>undefined\<close>: the key of an integer is
  the integer, the key of \<^verbatim>\<open>undefined\<close> is \<open>d\<close>.\<close>

definition undefined_as :: "int \<Rightarrow> int option \<Rightarrow> int" where
  "undefined_as d x = (case x of None \<Rightarrow> d | Some n \<Rightarrow> n)"

text \<open>The key of a record of an age and a name, 0 for \<^verbatim>\<open>undefined\<close>.\<close>

definition age :: "(int \<times> string) option \<Rightarrow> int" where
  "age x = (case x of None \<Rightarrow> 0 | Some person \<Rightarrow> fst person)"

text \<open>No addition in the sum of the reals \<open>qs\<close>, started at \<open>acc\<close>, is rounded.\<close>

fun unrounded :: "real \<Rightarrow> real list \<Rightarrow> bool" where
  "unrounded acc [] = True"
| "unrounded acc (q # qs) = (round64 (acc + q) = Finite (acc + q) \<and> unrounded (acc + q) qs)"

section \<open>Properties\<close>

subsection \<open>The built-in array functions\<close>

lemma Array_filter_eq: "Array_filter p xs = filter p xs"
  by (induction xs) simp_all

lemma Array_map_eq: "Array_map f xs = map f xs"
  by (induction xs) simp_all

lemma Array_some_eq: "Array_some p xs = (\<exists>x \<in> set xs. p x)"
  by (induction xs) simp_all

lemma Array_every_eq: "Array_every p xs = (\<forall>x \<in> set xs. p x)"
  by (induction xs) simp_all

lemma Array_reduce_eq: "Array_reduce g acc xs = foldl g acc xs"
  by (induction xs arbitrary: acc) simp_all

lemma Array_reduce_snoc: "Array_reduce g acc (xs @ [x]) = g (Array_reduce g acc xs) x"
  by (simp add: Array_reduce_eq)

lemma filter_positions:
  "filter p xs = map ((!) xs) (filter (\<lambda>i. p (xs ! i)) [0..<length xs])"
proof (induction xs rule: rev_induct)
  case Nil
  show ?case by simp
next
  case (snoc x xs)
  have "map ((!) (xs @ [x])) (filter (\<lambda>i. p ((xs @ [x]) ! i)) [0..<length xs])
      = map ((!) xs) (filter (\<lambda>i. p (xs ! i)) [0..<length xs])"
    by (intro map_cong filter_cong refl) (auto simp: nth_append)
  with snoc show ?case by simp
qed

subsection \<open>Rounding\<close>

lemma bit_length_le: "n < 2 ^ k \<Longrightarrow> bit_length n \<le> k"
proof (induction n arbitrary: k rule: bit_length.induct)
  case (1 n)
  show ?case
  proof (cases "n = 0")
    case True
    then show ?thesis by (simp add: bit_length.simps)
  next
    case False
    with "1.prems" obtain j where k: "k = Suc j" by (cases k) auto
    with "1.prems" have "n div 2 < 2 ^ j" by auto
    with "1.IH" [OF False] have "bit_length (n div 2) \<le> j" .
    with False k show ?thesis by (subst bit_length.simps) simp
  qed
qed

lemma bit_length_pos: "0 < n \<Longrightarrow> 0 < bit_length n"
  by (subst bit_length.simps) simp

lemma round_half_even_of_int: "round_half_even (of_int k) = k"
  by (simp add: round_half_even_def)

text \<open>A rule to evaluate the rounding of a positive real in steps.\<close>

lemma round64_positive:
  assumes "0 < q" and "floor_log2 q = e" and "- 1022 \<le> e"
    and "round_half_even (q / pow2 (e - 52)) = n" and "0 < n"
    and "of_int n * pow2 (e - 52) < pow2 1024"
  shows "round64 q = Finite (of_int n * pow2 (e - 52))"
proof -
  from assms(1) have a: "\<bar>q\<bar> = q" "q \<noteq> 0" "\<not> q < 0" by simp_all
  from assms(3) have m: "max e (- 1022) = e" by simp
  have nz: "real_of_int n * pow2 (e - 52) \<noteq> 0"
    using assms(5) by (simp add: pow2_def)
  show ?thesis
    unfolding round64_def Let_def a assms(2) m assms(4)
    using a nz assms(6) by simp
qed

lemma round64_of_nat:
  assumes "0 < n" and "n \<le> 2 ^ 53"
  shows "round64 (real n) = Finite (real n)"
proof -
  define e where "e = floor_log2 (real n)"
  from assms have one: "1 \<le> real n" by simp
  then have e: "e = int (bit_length n) - 1"
    by (simp add: e_def floor_log2_def)
  from assms(1) have lo: "0 \<le> e" unfolding e using bit_length_pos [of n] by simp
  have "n < 2 ^ 54" using assms(2) by simp
  then have hi: "e \<le> 53" unfolding e using bit_length_le [of n 54] by simp
  have exact: "\<exists>k. 0 < k \<and> real n / pow2 (e - 52) = of_int k"
  proof (cases "e \<le> 52")
    case True
    then have "pow2 (e - 52) = 1 / 2 ^ nat (52 - e)"
      by (cases "e = 52") (simp_all add: pow2_def)
    then have "real n / pow2 (e - 52) = of_int (int n * 2 ^ nat (52 - e))" by simp
    moreover have "0 < int n * 2 ^ nat (52 - e)" using assms(1) by simp
    ultimately show ?thesis by blast
  next
    case False
    with hi have e53: "e = 53" by simp
    have "\<not> n < 2 ^ 53"
    proof
      assume "n < 2 ^ 53"
      then have "bit_length n \<le> 53" by (rule bit_length_le)
      with e e53 show False by simp
    qed
    with assms(2) have n: "n = 2 ^ 53" by simp
    have "real n / pow2 (e - 52) = of_int (2 ^ 52)"
      unfolding e53 n by (simp add: pow2_def)
    then show ?thesis by (intro exI [of _ "2 ^ 52"]) simp
  qed
  then obtain k where k: "0 < k" "real n / pow2 (e - 52) = of_int k" by blast
  have p: "pow2 (e - 52) \<noteq> 0" by (simp add: pow2_def)
  from k(2) p have product: "of_int k * pow2 (e - 52) = real n"
    by (simp add: field_simps)
  have "real n < pow2 1024"
  proof -
    have "real n \<le> real (2 ^ 53)" using assms(2) by (simp only: of_nat_le_iff)
    also have "\<dots> < (2::real) ^ 1024" by simp
    finally show ?thesis by (simp add: pow2_def)
  qed
  with round64_positive [of "real n" e k] assms(1) lo k product e_def
  show ?thesis by (simp add: round_half_even_of_int)
qed

lemma round64_numeral [simp]:
  "numeral w \<le> (2 :: nat) ^ 53 \<Longrightarrow> round64 (numeral w) = Finite (numeral w)"
  using round64_of_nat [of "numeral w"] by simp

lemma round64_one [simp]: "round64 1 = Finite 1"
  using round64_of_nat [of 1] by simp

lemma round64_zero [simp]: "round64 0 = Finite 0"
  by (simp add: round64_def)

text \<open>The rounding of a real, evaluated in steps: the exponent, then the rounded multiple of
  the unit in the last place.\<close>

lemmas round_steps = floor_log2_def bit_length.simps round_half_even_def pow2_def Let_def

lemma round64_29_by_7: "round64 (29 / 7) = Finite (4664442471205157 / 1125899906842624)"
proof -
  have "round64 (29 / 7) = Finite (of_int 4664442471205157 * pow2 (2 - 52))"
    by (rule round64_positive [of "29 / 7" 2 4664442471205157]) (simp_all add: round_steps)
  then show ?thesis by (simp add: pow2_def)
qed

lemma round64_quotient_times_7:
  "round64 (4664442471205157 / 1125899906842624 * 7) = Finite (8162774324609025 / 281474976710656)"
proof -
  have "round64 (4664442471205157 / 1125899906842624 * 7)
      = Finite (of_int 8162774324609025 * pow2 (4 - 52))"
    by (rule round64_positive [of "4664442471205157 / 1125899906842624 * 7" 4 8162774324609025])
       (simp_all add: round_steps)
  then show ?thesis by (simp add: pow2_def)
qed

lemma round64_two_53_plus_1: "round64 (9007199254740992 + 1) = Finite 9007199254740992"
proof -
  have "round64 (9007199254740992 + 1) = Finite (of_int 4503599627370496 * pow2 (53 - 52))"
    by (rule round64_positive [of "9007199254740992 + 1" 53 4503599627370496])
       (simp_all add: round_steps)
  then show ?thesis by (simp add: pow2_def)
qed

lemma round64_9007199254740993: "round64 9007199254740993 = Finite 9007199254740992"
proof -
  have "round64 9007199254740993 = Finite (of_int 4503599627370496 * pow2 (53 - 52))"
    by (rule round64_positive [of 9007199254740993 53 4503599627370496])
       (simp_all add: round_steps)
  then show ?thesis by (simp add: pow2_def)
qed

lemma round64_product:
  "round64 (32651097298436099 / 1125899906842624) = Finite (8162774324609025 / 281474976710656)"
  using round64_quotient_times_7 by simp

lemma Number_add_Finite: "Number_add (Finite a) (Finite b) = round64 (a + b)"
  by (simp add: Number_add_def is_infinity_def)

lemma Array_reduce_unrounded:
  "unrounded acc qs
     \<Longrightarrow> Array_reduce (\<lambda>a b. Number_add a b) (Finite acc) (map Finite qs) = Finite (acc + sum_list qs)"
  by (induction qs arbitrary: acc) (simp_all add: Number_add_Finite add.assoc)

lemma sum_op_fold: "sum_op f xs = foldl Number_add (Finite 0) (map f xs)"
  by (simp add: sum_op_def select_def Array_map_eq Array_reduce_eq Let_def)

lemma round64_overflow:
  assumes "0 < q" and "floor_log2 q = e" and "- 1022 \<le> e"
    and "round_half_even (q / pow2 (e - 52)) = n"
    and "pow2 1024 \<le> of_int n * pow2 (e - 52)"
  shows "round64 q = PosInfinity"
proof -
  from assms(1) have a: "\<bar>q\<bar> = q" "q \<noteq> 0" "\<not> q < 0" by simp_all
  from assms(3) have m: "max e (- 1022) = e" by simp
  show ?thesis
    unfolding round64_def Let_def a assms(2) m assms(4)
    using a assms(5) by simp
qed

lemma round64_tenth: "round64 (1 / 10) = Finite (3602879701896397 / 36028797018963968)"
proof -
  have "round64 (1 / 10) = Finite (of_int 7205759403792794 * pow2 (- 4 - 52))"
    by (rule round64_positive [of "1 / 10" "- 4" 7205759403792794]) (simp_all add: round_steps)
  then show ?thesis by (simp add: pow2_def)
qed

lemma round64_fifth: "round64 (1 / 5) = Finite (3602879701896397 / 18014398509481984)"
proof -
  have "round64 (1 / 5) = Finite (of_int 7205759403792794 * pow2 (- 3 - 52))"
    by (rule round64_positive [of "1 / 5" "- 3" 7205759403792794]) (simp_all add: round_steps)
  then show ?thesis by (simp add: pow2_def)
qed

lemma round64_three_tenths: "round64 (3 / 10) = Finite (5404319552844595 / 18014398509481984)"
proof -
  have "round64 (3 / 10) = Finite (of_int 5404319552844595 * pow2 (- 2 - 52))"
    by (rule round64_positive [of "3 / 10" "- 2" 5404319552844595]) (simp_all add: round_steps)
  then show ?thesis by (simp add: pow2_def)
qed

lemma round64_tenth_plus_fifth:
  "round64 (10808639105689191 / 36028797018963968) = Finite (5404319552844596 / 18014398509481984)"
proof -
  have "round64 (10808639105689191 / 36028797018963968)
      = Finite (of_int 5404319552844596 * pow2 (- 2 - 52))"
    by (rule round64_positive [of "10808639105689191 / 36028797018963968" "- 2" 5404319552844596])
       (simp_all add: round_steps)
  then show ?thesis by (simp add: pow2_def)
qed

text \<open>\<^verbatim>\<open>0.1 + 0.2\<close> is \<^verbatim>\<open>0.30000000000000004\<close> and not \<^verbatim>\<open>0.3\<close>.\<close>

lemma tenth_plus_fifth:
  "Number_add (round64 (1 / 10)) (round64 (1 / 5)) = Finite (5404319552844596 / 18014398509481984)
   \<and> round64 (3 / 10) = Finite (5404319552844595 / 18014398509481984)"
  by (simp add: round64_tenth round64_fifth round64_three_tenths Number_add_Finite
        round64_tenth_plus_fifth)

text \<open>\<^verbatim>\<open>1e308 + 1e308\<close> is \<^verbatim>\<open>Infinity\<close>.\<close>

lemma sum_overflows:
  "Number_add (Finite (5010420900022432 * 2 ^ 971)) (Finite (5010420900022432 * 2 ^ 971)) = PosInfinity"
proof -
  have "round64 (5010420900022432 * 2 ^ 971 + 5010420900022432 * 2 ^ 971) = PosInfinity"
    by (rule round64_overflow [of _ 1024 5010420900022432]) (simp_all add: round_steps)
  then show ?thesis by (simp only: Number_add_Finite)
qed

subsection \<open>Stable sorting by a comparator\<close>

lemma mset_sort_insert: "mset (sort_insert c x ys) = add_mset x (mset ys)"
  by (induction ys) simp_all

lemma mset_insertion_sort: "mset (insertion_sort c xs) = mset xs"
  by (induction xs) (simp_all add: mset_sort_insert)

lemma set_sort_insert: "set (sort_insert c x ys) = insert x (set ys)"
  by (induction ys) auto

text \<open>A comparator that is the sign of a total preorder \<open>le\<close>.\<close>

lemma sorted_wrt_sort_insert:
  assumes tot: "\<And>a b. c a b > 0 \<Longrightarrow> le b a"
    and le: "\<And>a b. \<not> c a b > 0 \<Longrightarrow> le a b"
    and trans: "\<And>a b d. le a b \<Longrightarrow> le b d \<Longrightarrow> le a d"
  shows "sorted_wrt le ys \<Longrightarrow> sorted_wrt le (sort_insert c x ys)"
proof (induction ys)
  case Nil
  show ?case by simp
next
  case (Cons y ys)
  show ?case
  proof (cases "c x y > 0")
    case True
    with Cons tot[OF True] show ?thesis by (auto simp: set_sort_insert)
  next
    case False
    from le[OF False] have "le x y" .
    with Cons.prems have "\<forall>z \<in> set ys. le x z" by (auto intro: trans)
    with False \<open>le x y\<close> Cons.prems show ?thesis by simp
  qed
qed

lemma filter_sort_insert_neg:
  "\<not> P x \<Longrightarrow> filter P (sort_insert c x ys) = filter P ys"
  by (induction ys) simp_all

text \<open>Stability: among the elements of one class of the comparator (where it answers 0),
  the new element stays in front.\<close>

lemma filter_sort_insert_pos:
  assumes P: "P x" and same: "\<And>y. P y \<Longrightarrow> \<not> c x y > 0"
  shows "filter P (sort_insert c x ys) = x # filter P ys"
  using P same by (induction ys) auto

lemma stable_insertion_sort:
  assumes "\<And>x y. P x \<Longrightarrow> P y \<Longrightarrow> \<not> c x y > 0"
  shows "filter P (insertion_sort c xs) = filter P xs"
proof (induction xs)
  case Nil
  show ?case by simp
next
  case (Cons x xs)
  show ?case
  proof (cases "P x")
    case True
    then have "filter P (sort_insert c x (insertion_sort c xs)) = x # filter P (insertion_sort c xs)"
      using assms by (intro filter_sort_insert_pos) auto
    with True Cons show ?thesis by simp
  next
    case False
    with Cons show ?thesis by (simp add: filter_sort_insert_neg)
  qed
qed

lemma sorted_wrt_insertion_sort:
  assumes "\<And>a b. c a b > 0 \<Longrightarrow> le b a"
    and "\<And>a b. \<not> c a b > 0 \<Longrightarrow> le a b"
    and "\<And>a b d. le a b \<Longrightarrow> le b d \<Longrightarrow> le a d"
  shows "sorted_wrt le (insertion_sort c xs)"
proof (induction xs)
  case Nil
  show ?case by simp
next
  case (Cons x xs)
  from assms Cons show ?case
    by (simp add: sorted_wrt_sort_insert [where le = le])
qed

subsection \<open>The built-in sort with a comparator of keys\<close>

text \<open>The order that \<^verbatim>\<open>SortCompare\<close> makes of an order \<open>R\<close> of the defined elements:
  \<^verbatim>\<open>undefined\<close> is above everything.\<close>

lemma sorted_wrt_Array_sort:
  assumes pos: "\<And>a b. a \<noteq> None \<Longrightarrow> b \<noteq> None \<Longrightarrow> (c a b > 0 \<longleftrightarrow> \<not> R a b)"
    and total: "\<And>a b. R a b \<or> R b a"
    and trans: "\<And>a b d. R a b \<Longrightarrow> R b d \<Longrightarrow> R a d"
  shows "sorted_wrt (\<lambda>a b. b = None \<or> (a \<noteq> None \<and> R a b)) (Array_sort c xs)"
  unfolding Array_sort_def
proof (rule sorted_wrt_insertion_sort)
  fix a b :: "'a option"
  show "b = None \<or> (a \<noteq> None \<and> R a b)" if "\<not> 0 < SortCompare c a b"
    using that pos [of a b] by (auto simp: SortCompare_def split: if_splits)
  show "a = None \<or> (b \<noteq> None \<and> R b a)" if "0 < SortCompare c a b"
    using that pos [of a b] total [of a b] by (auto simp: SortCompare_def split: if_splits)
next
  fix a b d :: "'a option"
  assume "b = None \<or> (a \<noteq> None \<and> R a b)" and "d = None \<or> (b \<noteq> None \<and> R b d)"
  then show "d = None \<or> (a \<noteq> None \<and> R a d)"
    using trans by blast
qed

lemma undefined_last:
  "sorted_wrt (\<lambda>a b. b = None \<or> (a \<noteq> None \<and> R a b)) r
     \<Longrightarrow> r = filter (\<lambda>x. x \<noteq> None) r @ filter (\<lambda>x. x = None) r"
proof (induction r)
  case Nil
  show ?case by simp
next
  case (Cons x r)
  show ?case
  proof (cases x)
    case None
    with Cons.prems have "\<forall>y \<in> set r. y = None" by auto
    then have "filter (\<lambda>x. x \<noteq> None) r = []" and "filter (\<lambda>x. x = None) r = r"
      by (simp_all add: filter_empty_conv filter_id_conv)
    with None show ?thesis by simp
  next
    case (Some v)
    with Cons show ?thesis by simp
  qed
qed

lemma stable_Array_sort_defined:
  assumes "\<And>x y. P x \<Longrightarrow> P y \<Longrightarrow> x \<noteq> None \<and> \<not> c x y > 0"
  shows "filter P (Array_sort c xs) = filter P xs"
  unfolding Array_sort_def
  by (rule stable_insertion_sort) (use assms in \<open>auto simp: SortCompare_def\<close>)

lemma stable_Array_sort_undefined:
  "filter (\<lambda>x. x = None) (Array_sort c xs) = filter (\<lambda>x. x = None) xs"
  unfolding Array_sort_def
  by (rule stable_insertion_sort) (simp add: SortCompare_def)

lemma mset_Array_sort: "mset (Array_sort c xs) = mset xs"
  by (simp add: Array_sort_def mset_insertion_sort)

lemma ascending_pos: "ascending f a b > 0 \<longleftrightarrow> f a > f b"
  by (simp add: ascending_def Let_def)

lemma descending_pos: "descending f a b > 0 \<longleftrightarrow> f a < f b"
  by (simp add: descending_def Let_def)

lemma mset_orderBy: "mset (orderBy f xs) = mset xs"
  by (simp add: orderBy_def mset_Array_sort)

lemma mset_orderByDescending: "mset (orderByDescending f xs) = mset xs"
  by (simp add: orderByDescending_def mset_Array_sort)

lemma orderBy_order:
  "sorted_wrt (\<lambda>a b. b = None \<or> (a \<noteq> None \<and> f a \<le> f b)) (orderBy f xs)"
  unfolding orderBy_def
  by (rule sorted_wrt_Array_sort) (auto simp: ascending_pos)

lemma orderByDescending_order:
  "sorted_wrt (\<lambda>a b. b = None \<or> (a \<noteq> None \<and> f b \<le> f a)) (orderByDescending f xs)"
  unfolding orderByDescending_def
  by (rule sorted_wrt_Array_sort) (auto simp: descending_pos)

lemma orderBy_undefined_last:
  "orderBy f xs = filter (\<lambda>x. x \<noteq> None) (orderBy f xs) @ filter (\<lambda>x. x = None) xs"
proof -
  have "orderBy f xs
      = filter (\<lambda>x. x \<noteq> None) (orderBy f xs) @ filter (\<lambda>x. x = None) (orderBy f xs)"
    using orderBy_order by (rule undefined_last)
  moreover have "filter (\<lambda>x. x = None) (orderBy f xs) = filter (\<lambda>x. x = None) xs"
    unfolding orderBy_def by (rule stable_Array_sort_undefined)
  ultimately show ?thesis by simp
qed

lemma orderByDescending_undefined_last:
  "orderByDescending f xs
     = filter (\<lambda>x. x \<noteq> None) (orderByDescending f xs) @ filter (\<lambda>x. x = None) xs"
proof -
  have "orderByDescending f xs
      = filter (\<lambda>x. x \<noteq> None) (orderByDescending f xs)
        @ filter (\<lambda>x. x = None) (orderByDescending f xs)"
    using orderByDescending_order by (rule undefined_last)
  moreover have "filter (\<lambda>x. x = None) (orderByDescending f xs) = filter (\<lambda>x. x = None) xs"
    unfolding orderByDescending_def by (rule stable_Array_sort_undefined)
  ultimately show ?thesis by simp
qed

lemma sorted_wrt_defined:
  assumes "sorted_wrt (\<lambda>a b. b = None \<or> (a \<noteq> None \<and> R a b)) r"
  shows "sorted_wrt R (filter (\<lambda>x. x \<noteq> None) r)"
proof -
  from assms have "sorted_wrt (\<lambda>a b. b = None \<or> (a \<noteq> None \<and> R a b)) (filter (\<lambda>x. x \<noteq> None) r)"
    by (rule sorted_wrt_filter)
  then show ?thesis
    by (rule sorted_wrt_mono_rel [rotated]) auto
qed

lemma sorted_orderBy: "sorted (map f (filter (\<lambda>x. x \<noteq> None) (orderBy f xs)))"
  using sorted_wrt_defined [OF orderBy_order, of f xs] by (simp add: sorted_map)

lemma sorted_orderByDescending:
  "sorted_wrt (\<lambda>a b. f b \<le> f a) (filter (\<lambda>x. x \<noteq> None) (orderByDescending f xs))"
  using orderByDescending_order by (rule sorted_wrt_defined)

lemma stable_orderBy:
  "filter (\<lambda>x. f x = k) (filter (\<lambda>x. x \<noteq> None) (orderBy f xs))
     = filter (\<lambda>x. f x = k) (filter (\<lambda>x. x \<noteq> None) xs)"
proof -
  have "filter (\<lambda>x. x \<noteq> None \<and> f x = k) (orderBy f xs) = filter (\<lambda>x. x \<noteq> None \<and> f x = k) xs"
    unfolding orderBy_def by (rule stable_Array_sort_defined) (simp add: ascending_pos)
  then show ?thesis by (simp add: conj_commute)
qed

lemma stable_orderByDescending:
  "filter (\<lambda>x. f x = k) (filter (\<lambda>x. x \<noteq> None) (orderByDescending f xs))
     = filter (\<lambda>x. f x = k) (filter (\<lambda>x. x \<noteq> None) xs)"
proof -
  have "filter (\<lambda>x. x \<noteq> None \<and> f x = k) (orderByDescending f xs)
      = filter (\<lambda>x. x \<noteq> None \<and> f x = k) xs"
    unfolding orderByDescending_def by (rule stable_Array_sort_defined) (simp add: descending_pos)
  then show ?thesis by (simp add: conj_commute)
qed

lemma keys_reversed:
  "map f (filter (\<lambda>x. x \<noteq> None) (orderByDescending f xs))
     = rev (map f (filter (\<lambda>x. x \<noteq> None) (orderBy f xs)))"
proof -
  let ?D = "\<lambda>x. x \<noteq> None"
  have d: "sorted (rev (map f (filter ?D (orderByDescending f xs))))"
    using sorted_orderByDescending [of f xs]
    by (simp add: sorted_wrt_rev sorted_wrt_map flip: rev_map)
  have "sort (map f (filter ?D xs)) = rev (map f (filter ?D (orderByDescending f xs)))"
    by (rule properties_for_sort) (simp_all add: mset_orderByDescending d del: not_None_eq)
  moreover have "sort (map f (filter ?D xs)) = map f (filter ?D (orderBy f xs))"
    by (rule properties_for_sort) (simp_all add: mset_orderBy sorted_orderBy del: not_None_eq)
  ultimately have "rev (map f (filter ?D (orderByDescending f xs))) = map f (filter ?D (orderBy f xs))"
    by simp
  then show ?thesis by (simp add: rev_swap)
qed

lemma all_defined:
  assumes "None \<notin> set xs" and "mset r = mset xs"
  shows "filter (\<lambda>x. x \<noteq> None) r = r" and "filter (\<lambda>x. x \<noteq> None) xs = xs"
proof -
  from assms(2) have "set r = set xs" by (rule mset_eq_setD)
  with assms(1) have "\<forall>x \<in> set r. x \<noteq> None" by metis
  then show "filter (\<lambda>x. x \<noteq> None) r = r"
    unfolding filter_id_conv .
  from assms(1) have "\<forall>x \<in> set xs. x \<noteq> None" by metis
  then show "filter (\<lambda>x. x \<noteq> None) xs = xs"
    unfolding filter_id_conv .
qed

subsection \<open>Sets and maps in insertion order\<close>

lemma new_Set_snoc: "new_Set (xs @ [x]) = Set_add (new_Set xs) x"
  by (simp add: new_Set_def Array_reduce_snoc)

lemma new_Set_Nil: "new_Set [] = []"
  by (simp add: new_Set_def)

lemma set_new_Set: "set (new_Set xs) = set xs"
  by (induction xs rule: rev_induct) (auto simp: new_Set_Nil new_Set_snoc Set_add_def Set_has_def)

lemma distinct_new_Set: "distinct (new_Set xs)"
  by (induction xs rule: rev_induct) (auto simp: new_Set_Nil new_Set_snoc Set_add_def Set_has_def)

lemma new_Set_snoc_cases:
  "new_Set (xs @ [x]) = (if x \<in> set xs then new_Set xs else new_Set xs @ [x])"
  by (simp add: new_Set_snoc Set_add_def Set_has_def set_new_Set)

lemma subseq_new_Set: "subseq (new_Set xs) xs"
proof (induction xs rule: rev_induct)
  case Nil
  show ?case by (simp add: new_Set_Nil)
next
  case (snoc x xs)
  show ?case
  proof (cases "x \<in> set xs")
    case True
    with snoc show ?thesis
      by (simp add: new_Set_snoc_cases subseq_rev_drop_many)
  next
    case False
    with snoc show ?thesis
      by (simp add: new_Set_snoc_cases subseq_append)
  qed
qed

lemma new_Set_positions:
  "new_Set xs = map ((!) xs) (filter (\<lambda>i. xs ! i \<notin> set (take i xs)) [0..<length xs])"
proof (induction xs rule: rev_induct)
  case Nil
  show ?case by (simp add: new_Set_Nil)
next
  case (snoc x xs)
  let ?ys = "xs @ [x]"
  have old: "map ((!) ?ys) (filter (\<lambda>i. ?ys ! i \<notin> set (take i ?ys)) [0..<length xs])
      = map ((!) xs) (filter (\<lambda>i. xs ! i \<notin> set (take i xs)) [0..<length xs])"
    by (intro map_cong filter_cong refl) (auto simp: nth_append)
  have "map ((!) ?ys) (filter (\<lambda>i. ?ys ! i \<notin> set (take i ?ys)) [0..<length ?ys])
      = map ((!) ?ys) (filter (\<lambda>i. ?ys ! i \<notin> set (take i ?ys)) [0..<length xs])
        @ (if x \<in> set xs then [] else [x])"
    by simp
  also have "\<dots> = new_Set xs @ (if x \<in> set xs then [] else [x])"
    unfolding old using snoc by simp
  also have "\<dots> = new_Set ?ys"
    by (simp add: new_Set_snoc_cases)
  finally show ?case by simp
qed

lemma Map_get_Map_set: "Map_get (Map_set m k v) k' = (if k' = k then Some v else Map_get m k')"
  by (induction m) auto

lemma Map_set_twice: "Map_set (Map_set m k v) k w = Map_set m k w"
  by (induction m) auto

lemma Map_has_keys: "Map_has m k \<longleftrightarrow> k \<in> set (map fst m)"
  by (induction m) (auto simp: Map_has_def)

lemma keys_Map_set: "map fst (Map_set m k v) = Set_add (map fst m) k"
  by (induction m) (force simp: Set_add_def Set_has_def)+

lemma groupBy_loop_step:
  "groupBy_loop f m (item # rest) =
     groupBy_loop f (Map_set m (f item)
       ((case Map_get m (f item) of None \<Rightarrow> [] | Some arr \<Rightarrow> arr) @ [item])) rest"
  by (cases "Map_get m (f item)") (simp_all add: Map_has_def Map_get_Map_set Map_set_twice)

lemma groupBy_loop_returns:
  "\<exists>m'. groupBy_loop f m xs = Inr m'
     \<and> map fst m' = Array_reduce Set_add (map fst m) (map f xs)
     \<and> (\<forall>k. Map_get m' k =
           (case Map_get m k of
              Some arr \<Rightarrow> Some (arr @ filter (\<lambda>x. f x = k) xs)
            | None \<Rightarrow> if k \<in> f ` set xs then Some (filter (\<lambda>x. f x = k) xs) else None))"
proof (induction xs arbitrary: m)
  case Nil
  show ?case by (auto split: option.splits)
next
  case (Cons item rest)
  let ?m2 = "Map_set m (f item) ((case Map_get m (f item) of None \<Rightarrow> [] | Some arr \<Rightarrow> arr) @ [item])"
  from Cons [of ?m2] obtain m' where
    ret: "groupBy_loop f ?m2 rest = Inr m'"
    and keys: "map fst m' = Array_reduce Set_add (map fst ?m2) (map f rest)"
    and get: "\<And>k. Map_get m' k =
           (case Map_get ?m2 k of
              Some arr \<Rightarrow> Some (arr @ filter (\<lambda>x. f x = k) rest)
            | None \<Rightarrow> if k \<in> f ` set rest then Some (filter (\<lambda>x. f x = k) rest) else None)"
    by blast
  have "groupBy_loop f m (item # rest) = Inr m'"
    using ret by (simp only: groupBy_loop_step)
  moreover have "map fst m' = Array_reduce Set_add (map fst m) (map f (item # rest))"
    using keys by (simp add: keys_Map_set)
  moreover have "Map_get m' k =
           (case Map_get m k of
              Some arr \<Rightarrow> Some (arr @ filter (\<lambda>x. f x = k) (item # rest))
            | None \<Rightarrow> if k \<in> f ` set (item # rest)
                      then Some (filter (\<lambda>x. f x = k) (item # rest)) else None)" for k
    unfolding get [of k] by (auto simp: Map_get_Map_set split: option.splits)
  ultimately show ?case by blast
qed

lemma entries_by_keys:
  "distinct (map fst m) \<Longrightarrow> m = map (\<lambda>k. (k, the (Map_get m k))) (map fst m)"
proof (induction m)
  case Nil
  show ?case by simp
next
  case (Cons e m)
  obtain k0 v0 where e: "e = (k0, v0)" by (cases e)
  from Cons.prems e have notin: "k0 \<notin> set (map fst m)" and d: "distinct (map fst m)"
    by simp_all
  have "map (\<lambda>k. (k, the (Map_get (e # m) k))) (map fst m)
      = map (\<lambda>k. (k, the (Map_get m k))) (map fst m)"
    using notin e by (intro map_cong refl) auto
  with Cons.IH [OF d] e show ?case by simp
qed

lemma groupBy_closed_form:
  "groupBy f xs = Inr (map (\<lambda>k. (k, filter (\<lambda>x. f x = k) xs)) (new_Set (map f xs)))"
proof -
  from groupBy_loop_returns [of f "[]" xs] obtain m' where
    ret: "groupBy f xs = Inr m'"
    and keys: "map fst m' = new_Set (map f xs)"
    and get: "\<And>k. Map_get m' k = (if k \<in> f ` set xs then Some (filter (\<lambda>x. f x = k) xs) else None)"
    by (auto simp: groupBy_def new_Set_def)
  have "distinct (map fst m')" by (simp add: keys distinct_new_Set)
  then have "m' = map (\<lambda>k. (k, the (Map_get m' k))) (map fst m')"
    by (rule entries_by_keys)
  also have "\<dots> = map (\<lambda>k. (k, filter (\<lambda>x. f x = k) xs)) (new_Set (map f xs))"
    unfolding keys by (intro map_cong refl) (auto simp: get set_new_Set)
  finally show ?thesis using ret by simp
qed

subsection \<open>The operators on the store\<close>

lemma Map_get_view: "Map_get (view h m) k = map_option ((!) h) (Map_get m k)"
  by (induction m) (auto simp: view_def)

lemma Map_has_view: "Map_has (view h m) k = Map_has m k"
  by (simp add: Map_has_def Map_get_view)

lemma Map_get_ref: "Map_get m k = Some r \<Longrightarrow> r \<in> set (map snd m)"
  by (induction m) (auto split: if_splits)

lemma Map_set_absent: "\<not> Map_has m k \<Longrightarrow> Map_set m k v = m @ [(k, v)]"
  by (induction m) (auto simp: Map_has_def)

lemma view_alloc: "\<forall>r \<in> set (map snd m). r < length h \<Longrightarrow> view (h @ [xs]) m = view h m"
  by (induction m) (auto simp: view_def nth_append)

lemma view_update_other: "r \<notin> set (map snd m) \<Longrightarrow> view (h[r := v]) m = view h m"
  by (induction m) (auto simp: view_def)

lemma view_push:
  "Map_get m k = Some r \<Longrightarrow> distinct (map snd m) \<Longrightarrow> r < length h
     \<Longrightarrow> view (h[r := v]) m = Map_set (view h m) k v"
proof (induction m)
  case Nil
  then show ?case by simp
next
  case (Cons e m)
  obtain k0 r0 where e: "e = (k0, r0)" by (cases e)
  show ?case
  proof (cases "k0 = k")
    case True
    with Cons.prems e have "r0 = r" and "r \<notin> set (map snd m)" by auto
    with True e Cons.prems show ?thesis
      by (simp add: view_def view_update_other [unfolded view_def])
  next
    case False
    with Cons.prems e have get: "Map_get m k = Some r" and d: "distinct (map snd m)"
      and ne: "r0 \<noteq> r"
      by (auto dest: Map_get_ref)
    from Cons.IH [OF get d Cons.prems(3)] False e ne show ?thesis
      by (simp add: view_def)
  qed
qed

lemma groupBy_refs_step_absent:
  assumes "\<not> Map_has m (f item)"
  shows "groupBy_refs f m (item # rest) h =
     groupBy_refs f (m @ [(f item, length h)]) rest (h @ [[item]])"
proof -
  have "groupBy_refs f m (item # rest) h =
     groupBy_refs f (Map_set m (f item) (length h)) rest (h @ [[item]])"
    using assms by (simp add: alloc_def Map_get_Map_set push_def Let_def)
  then show ?thesis using assms by (simp add: Map_set_absent)
qed

lemma groupBy_refs_step_present:
  assumes "Map_get m (f item) = Some r"
  shows "groupBy_refs f m (item # rest) h = groupBy_refs f m rest (h[r := h ! r @ [item]])"
  using assms by (simp add: Map_has_def push_def Let_def)

lemma groupBy_refs_returns:
  assumes "fresh_refs n h m" and "n \<le> length h"
  shows "\<exists>m' h'. groupBy_refs f m xs h = (Inr m', h')
           \<and> take n h' = take n h \<and> length h \<le> length h'
           \<and> groupBy_loop f (view h m) xs = Inr (view h' m')"
  using assms
proof (induction xs arbitrary: m h)
  case Nil
  then show ?case by simp
next
  case (Cons item rest)
  let ?k = "f item"
  show ?case
  proof (cases "Map_get m ?k")
    case None
    then have absent: "\<not> Map_has m ?k" by (simp add: Map_has_def)
    let ?m1 = "m @ [(?k, length h)]" and ?h1 = "h @ [[item]]"
    from Cons.prems have fresh: "fresh_refs n ?h1 ?m1"
      by (auto simp: fresh_refs_def)
    have le: "n \<le> length ?h1" using Cons.prems by simp
    from Cons.prems have old: "\<forall>r \<in> set (map snd m). r < length h"
      by (auto simp: fresh_refs_def)
    have v: "view ?h1 ?m1 = Map_set (view h m) ?k ([] @ [item])"
      using absent
      by (simp add: Map_set_absent [of "view h m"] Map_has_view)
         (simp add: view_def view_alloc [OF old, unfolded view_def])
    have step: "groupBy_refs f m (item # rest) h = groupBy_refs f ?m1 rest ?h1"
      using absent by (rule groupBy_refs_step_absent)
    have pstep: "groupBy_loop f (view h m) (item # rest) = groupBy_loop f (view ?h1 ?m1) rest"
      unfolding groupBy_loop_step v Map_get_view None by simp
    from Cons.IH [OF fresh le] obtain m' h' where
      "groupBy_refs f ?m1 rest ?h1 = (Inr m', h')" "take n h' = take n ?h1"
      "length ?h1 \<le> length h'" "groupBy_loop f (view ?h1 ?m1) rest = Inr (view h' m')"
      by blast
    with Cons.prems(2) show ?thesis
      unfolding step pstep by auto
  next
    case (Some r)
    let ?h1 = "h[r := h ! r @ [item]]"
    from Some have rin: "r \<in> set (map snd m)" by (rule Map_get_ref)
    with Cons.prems have r: "n \<le> r" "r < length h" and d: "distinct (map snd m)"
      by (auto simp: fresh_refs_def)
    from Cons.prems have fresh: "fresh_refs n ?h1 m"
      by (auto simp: fresh_refs_def)
    have le: "n \<le> length ?h1" using Cons.prems by simp
    have v: "view ?h1 m = Map_set (view h m) ?k (h ! r @ [item])"
      using Some d r(2) by (rule view_push)
    have step: "groupBy_refs f m (item # rest) h = groupBy_refs f m rest ?h1"
      using Some by (rule groupBy_refs_step_present)
    have pstep: "groupBy_loop f (view h m) (item # rest) = groupBy_loop f (view ?h1 m) rest"
      unfolding groupBy_loop_step v Map_get_view Some by simp
    from Cons.IH [OF fresh le] obtain m' h' where
      "groupBy_refs f m rest ?h1 = (Inr m', h')" "take n h' = take n ?h1"
      "length ?h1 \<le> length h'" "groupBy_loop f (view ?h1 m) rest = Inr (view h' m')"
      by blast
    with r show ?thesis
      unfolding step pstep by auto
  qed
qed

lemma call_groupBy:
  assumes "c = OpGroupBy f"
  shows "\<exists>m' h'. call L c this h = (Inr (RefGroups m'), h')
      \<and> take (length h) h' = h \<and> length h \<le> length h'
      \<and> groupBy f (h ! data this) = Inr (view h' m')"
proof -
  have "fresh_refs (length h) h []" by (simp add: fresh_refs_def)
  from groupBy_refs_returns [OF this order_refl, of f "h ! data this"]
  show ?thesis unfolding assms by (auto simp: groupBy_def view_def)
qed

lemma call_extends:
  "take (length h) (snd (call L c this h)) = h \<and> length h \<le> length (snd (call L c this h))"
proof (cases c)
  case (OpGroupBy f)
  from call_groupBy [OF this, of L this h] show ?thesis by auto
qed (auto simp: alloc_def sort_in_place_def)

lemma observe_call:
  "observe (call L c this h) = invoke L c (h ! data this)"
proof (cases c)
  case (OpGroupBy f)
  from call_groupBy [OF this, of L this h] obtain m' h' where
    "call L c this h = (Inr (RefGroups m'), h')"
    "groupBy f (h ! data this) = Inr (view h' m')"
    by blast
  with OpGroupBy show ?thesis by (simp add: observe_def view_def del: call.simps)
next
  case OpFirst
  then show ?thesis by (cases "first (h ! data this)") (simp_all add: observe_def)
next
  case (OpAverage f)
  then show ?thesis by (cases "average f (h ! data this)") (simp_all add: observe_def)
next
  case (OpMax f)
  then show ?thesis by (cases "max_op L f (h ! data this)") (simp_all add: observe_def)
next
  case (OpMin f)
  then show ?thesis by (cases "min_op L f (h ! data this)") (simp_all add: observe_def)
qed (simp_all add: observe_def alloc_def sort_in_place_def orderBy_def orderByDescending_def)

lemma call_keeps:
  assumes "r < length h"
  shows "snd (call L c this h) ! r = h ! r"
proof -
  have "take (length h) (snd (call L c this h)) ! r = h ! r"
    by (simp add: call_extends)
  with assms show ?thesis by simp
qed

section \<open>The claims\<close>

text \<open>
  C1. \<^verbatim>\<open>first\<close> and \<^verbatim>\<open>average\<close> fail exactly when the wrapped array is empty, with the
  error of message \<^verbatim>\<open>InvalidOperationException\<close>; so do \<^verbatim>\<open>max\<close> and \<^verbatim>\<open>min\<close> on the
  empty array. But \<^verbatim>\<open>max\<close> and \<^verbatim>\<open>min\<close> spread the selected values into the arguments of
  \<^verbatim>\<open>Math.max\<close> and \<^verbatim>\<open>Math.min\<close>, so they also fail, with a \<^verbatim>\<open>RangeError\<close>, on every
  array with more elements than a call can take arguments, where \<^verbatim>\<open>sum\<close> and
  \<^verbatim>\<open>average\<close> fold the same values with \<^verbatim>\<open>reduce\<close> and return. No operator fails in any
  other way; in particular \<^verbatim>\<open>groupBy\<close>, whose loop calls \<^verbatim>\<open>push\<close> on what
  \<^verbatim>\<open>map.get\<close> returns, always finds the entry.
\<close>

theorem failure_conditions:
  "(first xs = Inl e \<longleftrightarrow> xs = [] \<and> e = InvalidOperation)
   \<and> (average f xs = Inl e \<longleftrightarrow> xs = [] \<and> e = InvalidOperation)
   \<and> (max_op L f xs = Inl e \<longleftrightarrow>
        (xs = [] \<and> e = InvalidOperation) \<or> (L < length xs \<and> e = RangeError))
   \<and> (min_op L f xs = Inl e \<longleftrightarrow>
        (xs = [] \<and> e = InvalidOperation) \<or> (L < length xs \<and> e = RangeError))
   \<and> (invoke L c ys = Inl e \<longleftrightarrow>
        (checks_empty c \<and> ys = [] \<and> e = InvalidOperation)
        \<or> (spreads_arguments c \<and> L < length ys \<and> e = RangeError))"
proof -
  have 1: "first zs = Inl e \<longleftrightarrow> zs = [] \<and> e = InvalidOperation" for zs :: "'z list"
    by (auto simp: first_def InvalidOperation_def)
  have 2: "average g zs = Inl e \<longleftrightarrow> zs = [] \<and> e = InvalidOperation" for g and zs :: "'z list"
    by (auto simp: average_def InvalidOperation_def Let_def)
  have 3: "max_op L g zs = Inl e \<longleftrightarrow>
        (zs = [] \<and> e = InvalidOperation) \<or> (L < length zs \<and> e = RangeError)"
    for g and zs :: "'z list"
    by (auto simp: max_op_def spread_call_def select_def Array_map_eq InvalidOperation_def)
  have 4: "min_op L g zs = Inl e \<longleftrightarrow>
        (zs = [] \<and> e = InvalidOperation) \<or> (L < length zs \<and> e = RangeError)"
    for g and zs :: "'z list"
    by (auto simp: min_op_def spread_call_def select_def Array_map_eq InvalidOperation_def)
  have 5: "invoke L c ys = Inl e \<longleftrightarrow>
        (checks_empty c \<and> ys = [] \<and> e = InvalidOperation)
        \<or> (spreads_arguments c \<and> L < length ys \<and> e = RangeError)"
  proof (cases c)
    case OpFirst
    with 1 [of ys] show ?thesis by (cases "first ys") auto
  next
    case (OpAverage g)
    with 2 [of g ys] show ?thesis by (cases "average g ys") auto
  next
    case (OpMax g)
    with 3 [of g ys] show ?thesis by (cases "max_op L g ys") auto
  next
    case (OpMin g)
    with 4 [of g ys] show ?thesis by (cases "min_op L g ys") auto
  next
    case (OpGroupBy g)
    then show ?thesis by (simp add: groupBy_closed_form)
  qed simp_all
  from 1 [of xs] 2 [of f xs] 3 [of f xs] 4 [of f xs] 5 show ?thesis by blast
qed

text \<open>The statement at concrete arrays.\<close>

theorem failure_conditions_witness:
  "max_op 125000 id (replicate 130000 (Finite 1)) = Inl RangeError
   \<and> min_op 125000 id (replicate 130000 (Finite 1)) = Inl RangeError
   \<and> max_op 125000 id [Finite 1, Finite 2, Finite 3, Finite 4, Finite 5] = Inr (Finite 5)
   \<and> min_op 125000 id [Finite 1, Finite 2, Finite 3, Finite 4, Finite 5] = Inr (Finite 1)
   \<and> max_op 125000 id ([] :: number list) = Inl InvalidOperation
   \<and> first ([] :: number list) = Inl InvalidOperation"
proof -
  let ?xs = "replicate 130000 (Finite 1)"
  have long: "125000 < length ?xs" by simp
  note c = failure_conditions [of ?xs RangeError id 125000 OpFirst "[]"]
  from c long have "max_op 125000 id ?xs = Inl RangeError" by blast
  moreover from c long have "min_op 125000 id ?xs = Inl RangeError" by blast
  moreover have "max_op 125000 id [Finite 1, Finite 2, Finite 3, Finite 4, Finite 5] = Inr (Finite 5)"
    by (simp add: max_op_def spread_call_def select_def Math_max_def max_step_def Number_lessThan_def)
  moreover have "min_op 125000 id [Finite 1, Finite 2, Finite 3, Finite 4, Finite 5] = Inr (Finite 1)"
    by (simp add: min_op_def spread_call_def select_def Math_min_def min_step_def Number_lessThan_def)
  moreover have "max_op 125000 id ([] :: number list) = Inl InvalidOperation"
    by (simp add: max_op_def InvalidOperation_def)
  moreover have "first ([] :: number list) = Inl InvalidOperation"
    by (simp add: first_def InvalidOperation_def)
  ultimately show ?thesis by (intro conjI)
qed

text \<open>
  C2. For a key selector into a linearly ordered type, \<^verbatim>\<open>orderBy\<close> returns a permutation
  of the array: first the elements other than \<^verbatim>\<open>undefined\<close>, their keys ascending and the
  elements of one key in the order in which they stood in the array, then the
  \<^verbatim>\<open>undefined\<close> elements, whatever their key. For an array without \<^verbatim>\<open>undefined\<close> the
  result is the array sorted ascending by key, the elements of one key in their original
  order.
\<close>

theorem orderBy_sorts_defined:
  "mset (orderBy f xs) = mset xs
   \<and> orderBy f xs = filter (\<lambda>x. x \<noteq> None) (orderBy f xs) @ filter (\<lambda>x. x = None) xs
   \<and> sorted (map f (filter (\<lambda>x. x \<noteq> None) (orderBy f xs)))
   \<and> (\<forall>k. filter (\<lambda>x. f x = k) (filter (\<lambda>x. x \<noteq> None) (orderBy f xs))
          = filter (\<lambda>x. f x = k) (filter (\<lambda>x. x \<noteq> None) xs))
   \<and> (None \<notin> set xs \<longrightarrow>
        sorted (map f (orderBy f xs))
        \<and> (\<forall>k. filter (\<lambda>x. f x = k) (orderBy f xs) = filter (\<lambda>x. f x = k) xs))"
proof -
  have defined: "sorted (map f (orderBy f xs))
      \<and> (\<forall>k. filter (\<lambda>x. f x = k) (orderBy f xs) = filter (\<lambda>x. f x = k) xs)"
    if "None \<notin> set xs"
  proof -
    from that mset_orderBy [of f xs]
    have "filter (\<lambda>x. x \<noteq> None) (orderBy f xs) = orderBy f xs"
      and "filter (\<lambda>x. x \<noteq> None) xs = xs"
      by (rule all_defined)+
    with sorted_orderBy [of f xs] stable_orderBy [of f _ xs] show ?thesis
      by (simp del: not_None_eq)
  qed
  from mset_orderBy [of f xs] orderBy_undefined_last [of f xs] sorted_orderBy [of f xs]
    stable_orderBy [of f _ xs] defined
  show ?thesis by (intro conjI allI impI) blast+
qed

text \<open>The statement at concrete arrays.\<close>

theorem orderBy_sorts_defined_witness:
  "None \<notin> set [Some (30, ''a''), Some (20, ''b''), Some (30, ''c''), Some (20, ''d''), Some (25 :: int, ''e'')]
   \<and> orderBy age
        [Some (30, ''a''), Some (20, ''b''), Some (30, ''c''), Some (20, ''d''), Some (25 :: int, ''e'')]
     = [Some (20, ''b''), Some (20, ''d''), Some (25, ''e''), Some (30, ''a''), Some (30, ''c'')]
   \<and> orderBy (undefined_as 0) [Some 3, None, Some 1, None]
     = [Some 1, Some 3] @ [None, None]"
proof -
  let ?xs = "[Some (30, ''a''), Some (20, ''b''), Some (30, ''c''), Some (20, ''d''), Some (25 :: int, ''e'')]"
  have h: "None \<notin> set ?xs" by simp
  from orderBy_sorts_defined [of age ?xs] h
  have "sorted (map age (orderBy age ?xs))" by blast
  with h show ?thesis
    by (simp add: orderBy_def Array_sort_def SortCompare_def ascending_def undefined_as_def age_def)
qed

text \<open>The result is not sorted by key on every array: with the key 0 for \<^verbatim>\<open>undefined\<close>,
  \<^verbatim>\<open>[3, undefined, 1]\<close> is ordered to \<^verbatim>\<open>[1, 3, undefined]\<close>, of keys 1, 3, 0.\<close>

theorem orderBy_undefined_counterexample:
  "orderBy (undefined_as 0) [Some 3, None, Some 1] = [Some 1, Some 3, None]
   \<and> map (undefined_as 0) (orderBy (undefined_as 0) [Some 3, None, Some 1]) = [1, 3, 0]
   \<and> \<not> sorted (map (undefined_as 0) (orderBy (undefined_as 0) [Some 3, None, Some 1]))"
  by (simp add: orderBy_def Array_sort_def SortCompare_def ascending_def undefined_as_def)

text \<open>
  C3. \<^verbatim>\<open>orderByDescending\<close> returns a permutation of the array: first the elements other
  than \<^verbatim>\<open>undefined\<close>, their keys descending and the elements of one key in their original
  order, then the \<^verbatim>\<open>undefined\<close> elements. Among the elements other than \<^verbatim>\<open>undefined\<close>
  its list of keys is the reverse of that of \<^verbatim>\<open>orderBy\<close>, while the elements of one key stand
  in the same order in both results: the ties are not reversed. For an array without
  \<^verbatim>\<open>undefined\<close> all this holds of the whole results.
\<close>

theorem orderByDescending_sorts_defined:
  "mset (orderByDescending f xs) = mset xs
   \<and> orderByDescending f xs
       = filter (\<lambda>x. x \<noteq> None) (orderByDescending f xs) @ filter (\<lambda>x. x = None) xs
   \<and> sorted_wrt (\<lambda>a b. f b \<le> f a) (filter (\<lambda>x. x \<noteq> None) (orderByDescending f xs))
   \<and> (\<forall>k. filter (\<lambda>x. f x = k) (filter (\<lambda>x. x \<noteq> None) (orderByDescending f xs))
          = filter (\<lambda>x. f x = k) (filter (\<lambda>x. x \<noteq> None) xs))
   \<and> map f (filter (\<lambda>x. x \<noteq> None) (orderByDescending f xs))
       = rev (map f (filter (\<lambda>x. x \<noteq> None) (orderBy f xs)))
   \<and> (\<forall>k. filter (\<lambda>x. f x = k) (filter (\<lambda>x. x \<noteq> None) (orderByDescending f xs))
          = filter (\<lambda>x. f x = k) (filter (\<lambda>x. x \<noteq> None) (orderBy f xs)))
   \<and> (None \<notin> set xs \<longrightarrow>
        sorted_wrt (\<lambda>a b. f b \<le> f a) (orderByDescending f xs)
        \<and> (\<forall>k. filter (\<lambda>x. f x = k) (orderByDescending f xs) = filter (\<lambda>x. f x = k) xs)
        \<and> map f (orderByDescending f xs) = rev (map f (orderBy f xs))
        \<and> (\<forall>k. filter (\<lambda>x. f x = k) (orderByDescending f xs)
               = filter (\<lambda>x. f x = k) (orderBy f xs)))"
proof -
  have ties: "filter (\<lambda>x. f x = k) (filter (\<lambda>x. x \<noteq> None) (orderByDescending f xs))
      = filter (\<lambda>x. f x = k) (filter (\<lambda>x. x \<noteq> None) (orderBy f xs))" for k
    by (simp only: stable_orderByDescending stable_orderBy)
  have defined: "sorted_wrt (\<lambda>a b. f b \<le> f a) (orderByDescending f xs)
        \<and> (\<forall>k. filter (\<lambda>x. f x = k) (orderByDescending f xs) = filter (\<lambda>x. f x = k) xs)
        \<and> map f (orderByDescending f xs) = rev (map f (orderBy f xs))
        \<and> (\<forall>k. filter (\<lambda>x. f x = k) (orderByDescending f xs)
               = filter (\<lambda>x. f x = k) (orderBy f xs))"
    if "None \<notin> set xs"
  proof -
    from that mset_orderByDescending [of f xs]
    have "filter (\<lambda>x. x \<noteq> None) (orderByDescending f xs) = orderByDescending f xs"
      and "filter (\<lambda>x. x \<noteq> None) xs = xs"
      by (rule all_defined)+
    moreover from that mset_orderBy [of f xs]
    have "filter (\<lambda>x. x \<noteq> None) (orderBy f xs) = orderBy f xs"
      by (rule all_defined)
    ultimately show ?thesis
      using sorted_orderByDescending [of f xs] stable_orderByDescending [of f _ xs]
        keys_reversed [of f xs] ties
      by (simp del: not_None_eq)
  qed
  from mset_orderByDescending [of f xs] orderByDescending_undefined_last [of f xs]
    sorted_orderByDescending [of f xs] stable_orderByDescending [of f _ xs]
    keys_reversed [of f xs] ties defined
  show ?thesis by (intro conjI allI impI) blast+
qed

text \<open>The statement at concrete arrays.\<close>

theorem orderByDescending_sorts_defined_witness:
  "None \<notin> set [Some (30, ''a''), Some (20, ''b''), Some (30, ''c''), Some (20, ''d''), Some (25 :: int, ''e'')]
   \<and> orderByDescending age
        [Some (30, ''a''), Some (20, ''b''), Some (30, ''c''), Some (20, ''d''), Some (25 :: int, ''e'')]
     = [Some (30, ''a''), Some (30, ''c''), Some (25, ''e''), Some (20, ''b''), Some (20, ''d'')]
   \<and> orderByDescending age
        [Some (30, ''a''), Some (20, ''b''), Some (30, ''c''), Some (20, ''d''), Some (25 :: int, ''e'')]
     \<noteq> rev (orderBy age
        [Some (30, ''a''), Some (20, ''b''), Some (30, ''c''), Some (20, ''d''), Some (25 :: int, ''e'')])"
proof -
  let ?xs = "[Some (30, ''a''), Some (20, ''b''), Some (30, ''c''), Some (20, ''d''), Some (25 :: int, ''e'')]"
  have h: "None \<notin> set ?xs" by simp
  from orderByDescending_sorts_defined [of age ?xs] h
  have "map age (orderByDescending age ?xs)
      = rev (map age (orderBy age ?xs))" by blast
  with h show ?thesis
    by (simp add: orderByDescending_def orderBy_def Array_sort_def SortCompare_def
          ascending_def descending_def age_def)
qed

text \<open>The result is not sorted descending on every array, and its keys are not the reverse of
  those of \<^verbatim>\<open>orderBy\<close>: with the key 5 for \<^verbatim>\<open>undefined\<close>, \<^verbatim>\<open>[undefined, 3, 1]\<close> is ordered
  to \<^verbatim>\<open>[3, 1, undefined]\<close>, of keys 3, 1, 5, and \<^verbatim>\<open>orderBy\<close> gives the keys 1, 3, 5.\<close>

theorem orderByDescending_undefined_counterexample:
  "orderByDescending (undefined_as 5) [None, Some 3, Some 1] = [Some 3, Some 1, None]
   \<and> map (undefined_as 5) (orderByDescending (undefined_as 5) [None, Some 3, Some 1]) = [3, 1, 5]
   \<and> \<not> sorted (rev (map (undefined_as 5) (orderByDescending (undefined_as 5) [None, Some 3, Some 1])))
   \<and> map (undefined_as 5) (orderBy (undefined_as 5) [None, Some 3, Some 1]) = [1, 3, 5]
   \<and> map (undefined_as 5) (orderByDescending (undefined_as 5) [None, Some 3, Some 1])
       \<noteq> rev (map (undefined_as 5) (orderBy (undefined_as 5) [None, Some 3, Some 1]))"
  by (simp add: orderByDescending_def orderBy_def Array_sort_def SortCompare_def
        ascending_def descending_def undefined_as_def)

text \<open>
  C4. The wrapper holds a reference to an array in the store. Whatever operator is called,
  the wrapped array has the contents it had before, and so has every array that existed
  before the call: the sort and the pushes write to arrays allocated by the call. What the
  caller sees of the result depends only on the contents of the wrapped array, so the same
  call gives the same result when it is made again, also after a call of another operator.
\<close>

theorem operators_do_not_mutate:
  assumes "data this < length h"
  shows "snd (call L c this h) ! data this = h ! data this
     \<and> take (length h) (snd (call L c this h)) = h
     \<and> observe (call L c this h) = invoke L c (h ! data this)
     \<and> observe (call L c this (snd (call L c this h))) = observe (call L c this h)
     \<and> observe (call L c this (snd (call L c' this h))) = observe (call L c this h)"
proof -
  have 1: "snd (call L c this h) ! data this = h ! data this"
    using assms by (rule call_keeps)
  have 2: "snd (call L c' this h) ! data this = h ! data this"
    using assms by (rule call_keeps)
  have 3: "take (length h) (snd (call L c this h)) = h"
    by (simp add: call_extends)
  from 1 2 3 show ?thesis
    by (simp add: observe_call)
qed

text \<open>The statement at concrete arrays.\<close>

theorem operators_do_not_mutate_witness:
  "data (from_op 0) < length [[Some 3, None, Some (1 :: int)]]
   \<and> snd (call 125000 (OpOrderBy (undefined_as 0) :: (int option, int, int, int) operator)
          (from_op 0) [[Some 3, None, Some 1]])
       = [[Some 3, None, Some 1], [Some 1, Some 3, None]]
   \<and> observe (call 125000 (OpOrderBy (undefined_as 0) :: (int option, int, int, int) operator)
          (from_op 0) [[Some 3, None, Some 1]])
       = Inr (Elements [Some 1, Some 3, None])"
proof -
  have h: "data (from_op 0) < length [[Some 3, None, Some (1 :: int)]]" by (simp add: from_op_def)
  have "observe (call 125000 (OpOrderBy (undefined_as 0) :: (int option, int, int, int) operator)
          (from_op 0) [[Some 3, None, Some 1]])
      = invoke 125000 (OpOrderBy (undefined_as 0)) ([[Some 3, None, Some 1]] ! data (from_op 0))"
    using operators_do_not_mutate [OF h, of 125000 "OpOrderBy (undefined_as 0)" "OpOrderBy (undefined_as 0)"]
    by blast
  then show ?thesis
    by (simp add: from_op_def alloc_def sort_in_place_def ascending_def orderBy_def
          Array_sort_def SortCompare_def undefined_as_def)
qed

text \<open>
  C5. \<^verbatim>\<open>groupBy\<close> returns one entry for each key that occurs, in the order in which the
  keys first occur; the entry of a key holds exactly the elements with that key, in the
  order of the array. The empty array gives the empty map.
\<close>

theorem groupBy_groups:
  "groupBy f xs = Inr (map (\<lambda>k. (k, filter (\<lambda>x. f x = k) xs)) (distinct_op (map f xs)))
   \<and> distinct_op (map f xs) =
       map (\<lambda>i. f (xs ! i)) (filter (\<lambda>i. f (xs ! i) \<notin> f ` set (take i xs)) [0..<length xs])
   \<and> groupBy f [] = Inr []"
proof -
  have "distinct_op (map f xs) =
      map ((!) (map f xs)) (filter (\<lambda>i. map f xs ! i \<notin> set (take i (map f xs))) [0..<length (map f xs)])"
    unfolding distinct_op_def by (rule new_Set_positions)
  also have "\<dots> = map (\<lambda>i. f (xs ! i)) (filter (\<lambda>i. f (xs ! i) \<notin> f ` set (take i xs)) [0..<length xs])"
    by (intro map_cong filter_cong) (auto simp: take_map)
  finally have keys: "distinct_op (map f xs) =
       map (\<lambda>i. f (xs ! i)) (filter (\<lambda>i. f (xs ! i) \<notin> f ` set (take i xs)) [0..<length xs])" .
  have groups: "groupBy f xs = Inr (map (\<lambda>k. (k, filter (\<lambda>x. f x = k) xs)) (distinct_op (map f xs)))"
    unfolding distinct_op_def by (rule groupBy_closed_form)
  have empty: "groupBy f [] = Inr []"
    by (simp add: groupBy_def)
  from groups keys empty show ?thesis by (intro conjI)
qed

text \<open>The statement at concrete arrays.\<close>

theorem groupBy_groups_witness:
  "groupBy fst [(30 :: int, ''a''), (20, ''b''), (30, ''c'')]
     = Inr [(30, [(30, ''a''), (30, ''c'')]), (20, [(20, ''b'')])]"
proof -
  let ?xs = "[(30 :: int, ''a''), (20, ''b''), (30, ''c'')]"
  have "groupBy fst ?xs = Inr (map (\<lambda>k. (k, filter (\<lambda>x. fst x = k) ?xs)) (distinct_op (map fst ?xs)))"
    using groupBy_groups [of fst ?xs] by (rule conjunct1)
  then show ?thesis
    by (simp add: distinct_op_def new_Set_def Set_add_def Set_has_def)
qed

text \<open>
  C6. \<^verbatim>\<open>distinct\<close> returns a subsequence of the array without repetition and with the
  same members: it keeps exactly the positions at which a value occurs for the first time.
  The empty array gives the empty array.
\<close>

theorem distinct_first_occurrences:
  "distinct (distinct_op xs)
   \<and> set (distinct_op xs) = set xs
   \<and> subseq (distinct_op xs) xs
   \<and> distinct_op xs = map ((!) xs) (filter (\<lambda>i. xs ! i \<notin> set (take i xs)) [0..<length xs])
   \<and> distinct_op [] = []"
  unfolding distinct_op_def
  by (intro conjI distinct_new_Set set_new_Set subseq_new_Set new_Set_positions new_Set_Nil)

text \<open>The statement at concrete arrays.\<close>

theorem distinct_first_occurrences_witness:
  "distinct_op [1, 2, 2, 3, 3, 3 :: int] = [1, 2, 3]
   \<and> distinct (distinct_op [1, 2, 2, 3, 3, 3 :: int])"
proof -
  have "distinct (distinct_op [1, 2, 2, 3, 3, 3 :: int])"
    using distinct_first_occurrences [of "[1, 2, 2, 3, 3, 3 :: int]"] by (rule conjunct1)
  then show ?thesis
    by (simp add: distinct_op_def new_Set_def Set_add_def Set_has_def)
qed

text \<open>
  C7. \<^verbatim>\<open>where\<close> returns a subsequence of the array; every element of the result
  satisfies the predicate, every element of the array that is not in the result fails it,
  and the positions kept are exactly those whose element satisfies the predicate.
\<close>

theorem where_subsequence:
  "subseq (where_op p xs) xs
   \<and> (\<forall>x \<in> set (where_op p xs). p x)
   \<and> (\<forall>x \<in> set xs. x \<notin> set (where_op p xs) \<longrightarrow> \<not> p x)
   \<and> where_op p xs = map ((!) xs) (filter (\<lambda>i. p (xs ! i)) [0..<length xs])"
proof -
  have w: "where_op p xs = filter p xs"
    by (simp add: where_op_def Array_filter_eq)
  have 1: "subseq (where_op p xs) xs" by (simp add: w)
  have 2: "\<forall>x \<in> set (where_op p xs). p x" by (simp add: w)
  have 3: "\<forall>x \<in> set xs. x \<notin> set (where_op p xs) \<longrightarrow> \<not> p x" by (simp add: w)
  have 4: "where_op p xs = map ((!) xs) (filter (\<lambda>i. p (xs ! i)) [0..<length xs])"
    unfolding w by (rule filter_positions)
  from 1 2 3 4 show ?thesis by (intro conjI)
qed

text \<open>The statement at concrete arrays.\<close>

theorem where_subsequence_witness:
  "where_op (\<lambda>n. 2 < n) [1, 2, 3, 4, 5 :: int] = [3, 4, 5]
   \<and> subseq (where_op (\<lambda>n. 2 < n) [1, 2, 3, 4, 5 :: int]) [1, 2, 3, 4, 5]
   \<and> 4 \<in> set (where_op (\<lambda>n. 2 < n) [1, 2, 3, 4, 5 :: int]) \<and> 2 < (4 :: int)
   \<and> 1 \<in> set [1, 2, 3, 4, 5 :: int] \<and> 1 \<notin> set (where_op (\<lambda>n. 2 < n) [1, 2, 3, 4, 5 :: int])
   \<and> \<not> 2 < (1 :: int)"
proof -
  have "subseq (where_op (\<lambda>n. 2 < n) [1, 2, 3, 4, 5 :: int]) [1, 2, 3, 4, 5]"
    using where_subsequence [of "\<lambda>n. 2 < n" "[1, 2, 3, 4, 5 :: int]"] by (rule conjunct1)
  moreover have "where_op (\<lambda>n. 2 < n) [1, 2, 3, 4, 5 :: int] = [3, 4, 5]"
    by (simp add: where_op_def)
  ultimately show ?thesis by simp
qed

text \<open>
  C8. On the empty array \<^verbatim>\<open>all\<close> is true and \<^verbatim>\<open>any\<close> is false. In general
  \<^verbatim>\<open>all\<close> holds iff every element satisfies the predicate, and \<^verbatim>\<open>any\<close> iff some
  element does.
\<close>

theorem all_any_quantifiers:
  "all p [] = True \<and> any p [] = False
   \<and> (all p xs \<longleftrightarrow> (\<forall>x \<in> set xs. p x))
   \<and> (any p xs \<longleftrightarrow> (\<exists>x \<in> set xs. p x))"
  by (simp add: all_def any_def Array_every_eq Array_some_eq)

text \<open>The statement at concrete arrays.\<close>

theorem all_any_quantifiers_witness:
  "all (\<lambda>n. n mod 2 = 0) [2, 4, 6 :: int] \<and> 4 \<in> set [2, 4, 6 :: int] \<and> (4 :: int) mod 2 = 0
   \<and> \<not> all (\<lambda>n. n mod 2 = 0) [1, 2, 3 :: int]
   \<and> any (\<lambda>n. 2 < n) [1, 2, 3 :: int] \<and> \<not> any (\<lambda>n. 3 < n) [1, 2, 3 :: int]"
  using all_any_quantifiers [of "\<lambda>n. n mod 2 = 0" "[2, 4, 6 :: int]"]
  by (simp add: all_def any_def)

text \<open>
  C9. \<^verbatim>\<open>sum\<close> adds the selected values to 0 from left to right, each addition rounded to
  binary64; it is the positive zero for the empty array, and a call of it returns normally.
  The result is the exact sum of the values whenever no addition on the way is rounded.
\<close>

theorem sum_adds_left_to_right:
  "sum_op f xs = foldl Number_add (Finite 0) (map f xs)
   \<and> sum_op f [] = Finite 0
   \<and> invoke L (OpSum g) ys = Inr (Number (sum_op g ys))
   \<and> (map f xs = map Finite qs \<and> unrounded 0 qs \<longrightarrow> sum_op f xs = Finite (sum_list qs))"
proof -
  have exact: "sum_op f xs = Finite (sum_list qs)" if "map f xs = map Finite qs" and "unrounded 0 qs"
  proof -
    have "sum_op f xs = Array_reduce (\<lambda>a b. Number_add a b) (Finite 0) (map f xs)"
      by (simp add: sum_op_fold Array_reduce_eq)
    with that Array_reduce_unrounded [of 0 qs] show ?thesis by simp
  qed
  have empty: "sum_op f [] = Finite 0" by (simp add: sum_op_def select_def)
  from sum_op_fold [of f xs] empty exact show ?thesis by simp
qed

text \<open>The statement at concrete arrays.\<close>

theorem sum_adds_left_to_right_witness:
  "map id [Finite 1, Finite 2, Finite 3, Finite 4, Finite 5] = map Finite [1, 2, 3, 4, 5]
   \<and> unrounded 0 [1, 2, 3, 4, 5]
   \<and> sum_op id [Finite 1, Finite 2, Finite 3, Finite 4, Finite 5] = Finite 15"
proof -
  have h: "map id [Finite 1, Finite 2, Finite 3, Finite 4, Finite 5] = map Finite [1, 2, 3, 4, 5]
      \<and> unrounded 0 [1, 2, 3, 4, 5]"
    by simp
  with sum_adds_left_to_right [of id "[Finite 1, Finite 2, Finite 3, Finite 4, Finite 5]" _ _ _ "[1, 2, 3, 4, 5]"]
  have "sum_op id [Finite 1, Finite 2, Finite 3, Finite 4, Finite 5] = Finite (sum_list [1, 2, 3, 4, 5])"
    by blast
  with h show ?thesis by simp
qed

text \<open>The result is not the exact sum on every array: \<open>2 ^ 53 + 1\<close> is not a binary64
  value, and the sum of \<^verbatim>\<open>[9007199254740992, 1]\<close> is \<^verbatim>\<open>9007199254740992\<close>.\<close>

theorem sum_rounds_counterexample:
  "sum_op id [Finite 9007199254740992, Finite 1] = Finite 9007199254740992
   \<and> sum_op id [Finite 9007199254740992, Finite 1] \<noteq> Finite (9007199254740992 + 1)"
  by (simp add: sum_op_def select_def Number_add_Finite round64_9007199254740993)

text \<open>
  C10. On a non-empty array \<^verbatim>\<open>average\<close> returns the binary64 quotient of \<^verbatim>\<open>sum\<close> and
  \<^verbatim>\<open>count\<close>.
\<close>

theorem average_is_sum_by_count:
  assumes "xs \<noteq> []"
  shows "average f xs = Inr (Number_divide (sum_op f xs) (Number_of_length (count_op xs)))"
  using assms
  by (simp add: average_def sum_op_def count_op_def select_def Array_map_eq Let_def)

text \<open>The statement at concrete arrays.\<close>

theorem average_is_sum_by_count_witness:
  "[Finite 1, Finite 2, Finite 3, Finite 4, Finite 5] \<noteq> []
   \<and> average id [Finite 1, Finite 2, Finite 3, Finite 4, Finite 5] = Inr (Finite 3)"
proof -
  have h: "[Finite 1, Finite 2, Finite 3, Finite 4, Finite 5] \<noteq> []" by simp
  from average_is_sum_by_count [OF h, of id]
  show ?thesis
    by (simp add: sum_op_def count_op_def select_def Number_add_Finite Number_of_length_def
          Number_divide_def is_infinity_def is_zero_def)
qed

text \<open>The average times the count is not the sum on every array: on
  \<^verbatim>\<open>[29, 0, 0, 0, 0, 0, 0]\<close> the sum is 29, the average is the binary64 value next to
  \<open>29 / 7\<close>, and seven times that value rounds to \<open>29 + 2 ^ - 48\<close>.\<close>

theorem average_times_count_counterexample:
  "average id [Finite 29, Finite 0, Finite 0, Finite 0, Finite 0, Finite 0, Finite 0]
     = Inr (Finite (4664442471205157 / 1125899906842624))
   \<and> Number_multiply (Finite (4664442471205157 / 1125899906842624))
        (Number_of_length (count_op [Finite 29, Finite 0, Finite 0, Finite 0, Finite 0, Finite 0, Finite 0]))
     = Finite (8162774324609025 / 281474976710656)
   \<and> sum_op id [Finite 29, Finite 0, Finite 0, Finite 0, Finite 0, Finite 0, Finite 0] = Finite 29
   \<and> Finite (8162774324609025 / 281474976710656) \<noteq> Finite 29"
proof -
  let ?xs = "[Finite 29, Finite 0, Finite 0, Finite 0, Finite 0, Finite 0, Finite 0]"
  have s: "sum_op id ?xs = Finite 29"
    by (simp add: sum_op_def select_def Number_add_Finite)
  have n: "Number_of_length (count_op ?xs) = Finite 7"
    by (simp add: Number_of_length_def count_op_def)
  have a: "average id ?xs = Inr (Finite (4664442471205157 / 1125899906842624))"
    by (simp add: average_def select_def Number_add_Finite Number_of_length_def
          Number_divide_def is_infinity_def is_zero_def round64_29_by_7)
  have p: "Number_multiply (Finite (4664442471205157 / 1125899906842624)) (Finite 7)
      = Finite (8162774324609025 / 281474976710656)"
    by (simp add: Number_multiply_def is_infinity_def is_zero_def round64_product)
  from s n a p show ?thesis by simp
qed

end
